theory Spec2Isabelle
  imports Main "HOL-Library.Sublist"
begin

section \<open>Python strings and the built-in operations the module uses\<close>

text \<open>
  The module \<^verbatim>\<open>vllm/entrypoints/openai/tool_parsers/utils.py\<close> works on Python
  \<^verbatim>\<open>str\<close> values.  A \<^verbatim>\<open>str\<close> is a finite sequence of code points, so it is
  modelled as a list over an arbitrary character type \<open>'a\<close>; the literal scenarios
  instantiate \<open>'a\<close> with \<^typ>\<open>char\<close>.  The classification \<^verbatim>\<open>str.isalnum\<close> of a
  single character is a table of the Python runtime, not of this repository: the
  functions take it as the parameter \<open>isalnum\<close>.

  Indexing a \<^verbatim>\<open>str\<close> raises \<^verbatim>\<open>IndexError\<close> out of range, so the functions that
  index return a value of \<open>py_error + 'a list\<close>.
\<close>

datatype py_error = IndexError

text \<open>\<^verbatim>\<open>s[i]\<close>: a negative index counts from the end.\<close>

definition getitem :: "'a list \<Rightarrow> int \<Rightarrow> py_error + 'a" where
  "getitem s i =
     (if 0 \<le> i \<and> i < int (length s) then Inr (s ! nat i)
      else if i < 0 \<and> - int (length s) \<le> i then Inr (s ! nat (int (length s) + i))
      else Inl IndexError)"

text \<open>
  \<^verbatim>\<open>s.find(sub, start)\<close>: the lowest index \<open>k \<ge> start\<close> with
  \<^verbatim>\<open>s[k : k + len(sub)] == sub\<close>, or \<open>-1\<close>.  A negative \<open>start\<close> is taken
  relative to the end and clamped at \<open>0\<close>.  The empty \<open>sub\<close> is found at every
  \<open>k \<le> len(s)\<close>.
\<close>

definition str_find :: "'a list \<Rightarrow> 'a list \<Rightarrow> int \<Rightarrow> int" where
  "str_find s sub start =
     (let n = int (length s);
          st = (if start < 0 then max 0 (start + n) else start)
      in case List.find (\<lambda>k. take (length sub) (drop k s) = sub)
                [nat st ..< Suc (length s) - length sub] of
           None \<Rightarrow> - 1
         | Some k \<Rightarrow> int k)"

text \<open>
  \<^verbatim>\<open>s.replace(old, new, 1)\<close>: the leftmost occurrence of \<open>old\<close> in \<open>s\<close> is
  replaced by \<open>new\<close>; \<open>s\<close> is returned unchanged when there is none.  The empty
  \<open>old\<close> occurs at position \<open>0\<close>.
\<close>

fun replace_once :: "'a list \<Rightarrow> 'a list \<Rightarrow> 'a list \<Rightarrow> 'a list" where
  "replace_once [] old new = (if old = [] then new else [])"
| "replace_once (c # cs) old new =
     (if take (length old) (c # cs) = old then new @ drop (length old) (c # cs)
      else c # replace_once cs old new)"

text \<open>\<^verbatim>\<open>c.isalnum()\<close> on the ASCII range, which the literal scenarios stay in.\<close>

definition ascii_isalnum :: "char \<Rightarrow> bool" where
  "ascii_isalnum c =
     (let n = (of_char c :: nat)
      in (48 \<le> n \<and> n \<le> 57) \<or> (65 \<le> n \<and> n \<le> 90) \<or> (97 \<le> n \<and> n \<le> 122))"

section \<open>The four functions of the module\<close>

subsection \<open>\<^verbatim>\<open>find_common_prefix\<close>\<close>

text \<open>
  \<^verbatim>\<open>
  prefix = ''
  min_length = min(len(s1), len(s2))
  for i in range(0, min_length):
      if s1[i] == s2[i]:
          prefix += s1[i]
      else:
          break
  return prefix
  \<close>
\<close>

function find_common_prefix_loop ::
  "'a list \<Rightarrow> 'a list \<Rightarrow> int \<Rightarrow> int \<Rightarrow> 'a list \<Rightarrow> py_error + 'a list" where
  "find_common_prefix_loop s1 s2 i min_length pre =
     (if i < min_length then
        (case getitem s1 i of
           Inl e \<Rightarrow> Inl e
         | Inr c1 \<Rightarrow>
             (case getitem s2 i of
                Inl e \<Rightarrow> Inl e
              | Inr c2 \<Rightarrow>
                  if c1 = c2
                  then find_common_prefix_loop s1 s2 (i + 1) min_length (pre @ [c1])
                  else Inr pre))
      else Inr pre)"
  by pat_completeness auto
termination
  by (relation "measure (\<lambda>(s1, s2, i, min_length, pre). nat (min_length - i))") auto

definition find_common_prefix :: "'a list \<Rightarrow> 'a list \<Rightarrow> py_error + 'a list" where
  "find_common_prefix s1 s2 =
     find_common_prefix_loop s1 s2 0 (min (int (length s1)) (int (length s2))) []"

subsection \<open>\<^verbatim>\<open>find_common_suffix\<close>\<close>

text \<open>
  \<^verbatim>\<open>
  suffix = ''
  min_length = min(len(s1), len(s2))
  for i in range(1, min_length + 1):
      if s1[-i] == s2[-i] and not s1[-i].isalnum():
          suffix = s1[-i] + suffix
      else:
          break
  return suffix
  \<close>
\<close>

function find_common_suffix_loop ::
  "('a \<Rightarrow> bool) \<Rightarrow> 'a list \<Rightarrow> 'a list \<Rightarrow> int \<Rightarrow> int \<Rightarrow> 'a list \<Rightarrow> py_error + 'a list" where
  "find_common_suffix_loop isalnum s1 s2 i stop suf =
     (if i < stop then
        (case getitem s1 (- i) of
           Inl e \<Rightarrow> Inl e
         | Inr c1 \<Rightarrow>
             (case getitem s2 (- i) of
                Inl e \<Rightarrow> Inl e
              | Inr c2 \<Rightarrow>
                  if c1 = c2 \<and> \<not> isalnum c1
                  then find_common_suffix_loop isalnum s1 s2 (i + 1) stop (c1 # suf)
                  else Inr suf))
      else Inr suf)"
  by pat_completeness auto
termination
  by (relation "measure (\<lambda>(isalnum, s1, s2, i, stop, suf). nat (stop - i))") auto

definition find_common_suffix ::
  "('a \<Rightarrow> bool) \<Rightarrow> 'a list \<Rightarrow> 'a list \<Rightarrow> py_error + 'a list" where
  "find_common_suffix isalnum s1 s2 =
     find_common_suffix_loop isalnum s1 s2 1
       (min (int (length s1)) (int (length s2)) + 1) []"

subsection \<open>\<^verbatim>\<open>extract_intermediate_diff\<close>\<close>

text \<open>
  \<^verbatim>\<open>
  suffix = find_common_suffix(curr, old)
  old = old[::-1].replace(suffix[::-1], '', 1)[::-1]
  prefix = find_common_prefix(curr, old)
  diff = curr
  if len(suffix):
      diff = diff[::-1].replace(suffix[::-1], '', 1)[::-1]
  if len(prefix):
      diff = diff.replace(prefix, '', 1)
  return diff
  \<close>
\<close>

text \<open>The parameter \<^verbatim>\<open>curr\<close> is written \<open>cur\<close>: \<open>curr\<close> is a constant of HOL.\<close>

definition extract_intermediate_diff ::
  "('a \<Rightarrow> bool) \<Rightarrow> 'a list \<Rightarrow> 'a list \<Rightarrow> py_error + 'a list" where
  "extract_intermediate_diff isalnum cur old =
     (case find_common_suffix isalnum cur old of
        Inl e \<Rightarrow> Inl e
      | Inr suf \<Rightarrow>
          (let old' = rev (replace_once (rev old) (rev suf) [])
           in case find_common_prefix cur old' of
                Inl e \<Rightarrow> Inl e
              | Inr pre \<Rightarrow>
                  (let diff = cur;
                       diff = (if length suf \<noteq> 0
                               then rev (replace_once (rev diff) (rev suf) [])
                               else diff);
                       diff = (if length pre \<noteq> 0
                               then replace_once diff pre []
                               else diff)
                   in Inr diff)))"

subsection \<open>\<^verbatim>\<open>find_all_indices\<close>\<close>

text \<open>
  \<^verbatim>\<open>
  indices = []
  index = -1
  while True:
      index = string.find(substring, index + 1)
      if index == -1:
          break
      indices.append(index)
  return indices
  \<close>
  The loop has no bound of its own, so it is a partial function: \<open>None\<close> stands for
  a run that never leaves the loop.
\<close>

partial_function (option) find_all_indices_loop ::
  "'a list \<Rightarrow> 'a list \<Rightarrow> int \<Rightarrow> int list \<Rightarrow> int list option" where
  "find_all_indices_loop string substring index indices =
     (let index' = str_find string substring (index + 1)
      in if index' = - 1 then Some indices
         else find_all_indices_loop string substring index' (indices @ [index']))"

declare find_all_indices_loop.simps [code]

definition find_all_indices :: "'a list \<Rightarrow> 'a list \<Rightarrow> int list option" where
  "find_all_indices string substring = find_all_indices_loop string substring (- 1) []"

section \<open>Specification-level notions used to state the properties\<close>

text \<open>
  The common leading run of two strings whose characters all satisfy \<open>P\<close>.  With
  \<open>P\<close> always true this is the longest common prefix.
\<close>

fun common_run :: "('a \<Rightarrow> bool) \<Rightarrow> 'a list \<Rightarrow> 'a list \<Rightarrow> 'a list" where
  "common_run P (x # xs) (y # ys) = (if x = y \<and> P x then x # common_run P xs ys else [])"
| "common_run P _ _ = []"

text \<open>
  A snapshot without its trailing run of structural (non-alphanumeric) characters:
  the content of the snapshot.
\<close>

definition strip_structural :: "('a \<Rightarrow> bool) \<Rightarrow> 'a list \<Rightarrow> 'a list" where
  "strip_structural isalnum s = rev (dropWhile (\<lambda>c. \<not> isalnum c) (rev s))"

text \<open>The trailing run of structural characters itself.\<close>

definition structural_tail :: "('a \<Rightarrow> bool) \<Rightarrow> 'a list \<Rightarrow> 'a list" where
  "structural_tail isalnum s = rev (takeWhile (\<lambda>c. \<not> isalnum c) (rev s))"

text \<open>
  The monotonic growth invariant of the specification: the content of the current
  snapshot strictly extends the content of the previous one.  \<open>appended_content\<close> is
  what was appended.
\<close>

definition appended_content :: "('a \<Rightarrow> bool) \<Rightarrow> 'a list \<Rightarrow> 'a list \<Rightarrow> 'a list" where
  "appended_content isalnum old cur =
     drop (length (strip_structural isalnum old)) (strip_structural isalnum cur)"

definition content_extends :: "('a \<Rightarrow> bool) \<Rightarrow> 'a list \<Rightarrow> 'a list \<Rightarrow> bool" where
  "content_extends isalnum old cur \<longleftrightarrow>
     strict_prefix (strip_structural isalnum old) (strip_structural isalnum cur)"

text \<open>
  The current snapshot keeps the closing characters of the previous one: its structural
  tail is a suffix of the previous structural tail (no closing character appears that
  the previous snapshot did not end with), and where closing characters were dropped
  from the front of the previous tail, the appended content does not begin with the
  first of them.
\<close>

definition closing_kept :: "('a \<Rightarrow> bool) \<Rightarrow> 'a list \<Rightarrow> 'a list \<Rightarrow> bool" where
  "closing_kept isalnum old cur \<longleftrightarrow>
     suffix (structural_tail isalnum cur) (structural_tail isalnum old)
     \<and> (let dropped = take (length (structural_tail isalnum old)
                              - length (structural_tail isalnum cur))
                          (structural_tail isalnum old)
        in dropped = [] \<or> hd dropped \<noteq> hd (appended_content isalnum old cur))"

text \<open>
  The Diff Extractor as section 4.3 of the specification words it, to be compared with
  \<open>extract_intermediate_diff\<close>: one trailing occurrence of a non-empty \<open>x\<close> is
  stripped from the end, one leading occurrence from the front, and nothing else is
  touched.
\<close>

definition strip_trailing :: "'a list \<Rightarrow> 'a list \<Rightarrow> 'a list" where
  "strip_trailing x s = (if x \<noteq> [] \<and> suffix x s then take (length s - length x) s else s)"

definition strip_leading :: "'a list \<Rightarrow> 'a list \<Rightarrow> 'a list" where
  "strip_leading x s = (if x \<noteq> [] \<and> prefix x s then drop (length x) s else s)"

definition DiffExtractor_spec ::
  "('a \<Rightarrow> bool) \<Rightarrow> 'a list \<Rightarrow> 'a list \<Rightarrow> py_error + 'a list" where
  "DiffExtractor_spec isalnum current previous =
     (case find_common_suffix isalnum current previous of
        Inl e \<Rightarrow> Inl e
      | Inr suf \<Rightarrow>
          (let previous' = strip_trailing suf previous
           in case find_common_prefix current previous' of
                Inl e \<Rightarrow> Inl e
              | Inr pre \<Rightarrow> Inr (strip_leading pre (strip_trailing suf current))))"

text \<open>
  Modelled from the spec: the caller of the Diff Extractor is not part of the source.
  Section 2 describes it: it holds one previous snapshot per stream, calls the Diff
  Extractor with (current, previous) on each new snapshot, forwards the diff and
  replaces the previous snapshot by the current one.  \<open>stream_diffs\<close> runs it over the
  snapshots \<open>s0, s1, ..., sn\<close> and returns the concatenation of the forwarded diffs.
\<close>

fun stream_diffs :: "('a \<Rightarrow> bool) \<Rightarrow> 'a list list \<Rightarrow> py_error + 'a list" where
  "stream_diffs isalnum (previous # current # rest) =
     (case extract_intermediate_diff isalnum current previous of
        Inl e \<Rightarrow> Inl e
      | Inr d \<Rightarrow>
          (case stream_diffs isalnum (current # rest) of
             Inl e \<Rightarrow> Inl e
           | Inr ds \<Rightarrow> Inr (d @ ds)))"
| "stream_diffs isalnum _ = Inr []"

section \<open>The loops in closed form\<close>

lemma getitem_nonneg: "0 \<le> i \<Longrightarrow> i < int (length s) \<Longrightarrow> getitem s i = Inr (s ! nat i)"
  by (simp add: getitem_def)

lemma getitem_neg:
  "1 \<le> i \<Longrightarrow> i \<le> int (length s) \<Longrightarrow> getitem s (- i) = Inr (rev s ! (nat i - 1))"
proof -
  assume a: "1 \<le> i" "i \<le> int (length s)"
  then have "nat i - 1 < length s" by auto
  then have "rev s ! (nat i - 1) = s ! (length s - Suc (nat i - 1))" by (rule rev_nth)
  moreover have "length s - Suc (nat i - 1) = nat (int (length s) - i)" using a by auto
  ultimately show ?thesis using a by (simp add: getitem_def)
qed

lemma common_run_Nil2 [simp]: "common_run P xs [] = []"
  by (cases xs) auto

lemma common_run_prefix1: "prefix (common_run P xs ys) xs"
  by (induction P xs ys rule: common_run.induct) auto

lemma common_run_prefix2: "prefix (common_run P xs ys) ys"
  by (induction P xs ys rule: common_run.induct) auto

lemma common_run_all: "c \<in> set (common_run P xs ys) \<Longrightarrow> P c"
  by (induction P xs ys rule: common_run.induct) (auto split: if_splits)

lemma common_run_max:
  "prefix q xs \<Longrightarrow> prefix q ys \<Longrightarrow> (\<And>c. c \<in> set q \<Longrightarrow> P c) \<Longrightarrow> prefix q (common_run P xs ys)"
proof (induction P xs ys arbitrary: q rule: common_run.induct)
  case (1 P x xs y ys)
  then show ?case by (cases q) auto
qed auto

lemma common_run_commute: "common_run P xs ys = common_run P ys xs"
  by (induction P xs ys rule: common_run.induct) auto

lemma common_run_stop:
  "common_run P xs ys = r \<Longrightarrow> length r < length xs \<Longrightarrow> length r < length ys \<Longrightarrow>
   xs ! length r \<noteq> ys ! length r \<or> \<not> P (xs ! length r)"
  by (induction P xs ys arbitrary: r rule: common_run.induct) (auto split: if_splits)

lemma find_common_prefix_loop_run:
  "0 \<le> i \<Longrightarrow> m = min (int (length s1)) (int (length s2)) \<Longrightarrow>
   find_common_prefix_loop s1 s2 i m pre =
     Inr (pre @ common_run (\<lambda>_. True) (drop (nat i) s1) (drop (nat i) s2))"
proof (induction s1 s2 i m pre rule: find_common_prefix_loop.induct)
  case (1 s1 s2 i m pre)
  show ?case
  proof (cases "i < m")
    case False
    with 1(2,3) have "drop (nat i) s1 = [] \<or> drop (nat i) s2 = []" by auto
    then have "common_run (\<lambda>_. True) (drop (nat i) s1) (drop (nat i) s2) = []"
      by (cases "drop (nat i) s1") auto
    with False show ?thesis by simp
  next
    case True
    with 1(2,3) have lt: "nat i < length s1" "nat i < length s2" by auto
    have g: "getitem s1 i = Inr (s1 ! nat i)" "getitem s2 i = Inr (s2 ! nat i)"
      using lt 1(2) by (simp_all add: getitem_nonneg)
    have d: "drop (nat i) s1 = s1 ! nat i # drop (nat (i + 1)) s1"
            "drop (nat i) s2 = s2 ! nat i # drop (nat (i + 1)) s2"
      using lt 1(2) by (simp_all add: Cons_nth_drop_Suc nat_add_distrib)
    show ?thesis
    proof (cases "s1 ! nat i = s2 ! nat i")
      case False
      with True g d show ?thesis by simp
    next
      case eq: True
      have "find_common_prefix_loop s1 s2 (i + 1) m (pre @ [s1 ! nat i]) =
            Inr ((pre @ [s1 ! nat i]) @
                 common_run (\<lambda>_. True) (drop (nat (i + 1)) s1) (drop (nat (i + 1)) s2))"
        using 1(1)[OF True g(1) g(2) eq] 1(2,3) by simp
      with True g d eq show ?thesis by simp
    qed
  qed
qed

lemma find_common_suffix_loop_run:
  "1 \<le> i \<Longrightarrow> stop = min (int (length s1)) (int (length s2)) + 1 \<Longrightarrow>
   find_common_suffix_loop isalnum s1 s2 i stop suf =
     Inr (rev (common_run (\<lambda>c. \<not> isalnum c) (drop (nat i - 1) (rev s1)) (drop (nat i - 1) (rev s2))) @ suf)"
proof (induction isalnum s1 s2 i stop suf rule: find_common_suffix_loop.induct)
  case (1 isalnum s1 s2 i stop suf)
  let ?k = "nat i - 1"
  show ?case
  proof (cases "i < stop")
    case False
    with 1(2,3) have "drop ?k (rev s1) = [] \<or> drop ?k (rev s2) = []" by auto
    then have "common_run (\<lambda>c. \<not> isalnum c) (drop ?k (rev s1)) (drop ?k (rev s2)) = []"
      by (cases "drop ?k (rev s1)") auto
    with False show ?thesis by simp
  next
    case True
    with 1(2,3) have lt: "?k < length (rev s1)" "?k < length (rev s2)" by auto
    have g: "getitem s1 (- i) = Inr (rev s1 ! ?k)" "getitem s2 (- i) = Inr (rev s2 ! ?k)"
      using True 1(2,3) by (simp_all add: getitem_neg)
    have k: "nat (i + 1) - 1 = Suc ?k" using 1(2) by auto
    have d: "drop ?k (rev s1) = rev s1 ! ?k # drop (Suc ?k) (rev s1)"
            "drop ?k (rev s2) = rev s2 ! ?k # drop (Suc ?k) (rev s2)"
      using lt by (simp_all add: Cons_nth_drop_Suc)
    show ?thesis
    proof (cases "rev s1 ! ?k = rev s2 ! ?k \<and> \<not> isalnum (rev s1 ! ?k)")
      case False
      with True g d show ?thesis by auto
    next
      case eq: True
      have "find_common_suffix_loop isalnum s1 s2 (i + 1) stop (rev s1 ! ?k # suf) =
            Inr (rev (common_run (\<lambda>c. \<not> isalnum c) (drop (Suc ?k) (rev s1)) (drop (Suc ?k) (rev s2)))
                 @ rev s1 ! ?k # suf)"
        using 1(1)[OF True g(1) g(2) eq] 1(2,3) k by simp
      with True g d eq show ?thesis by simp
    qed
  qed
qed

lemma find_common_prefix_run:
  "find_common_prefix s1 s2 = Inr (common_run (\<lambda>_. True) s1 s2)"
  unfolding find_common_prefix_def
  by (subst find_common_prefix_loop_run) simp_all

lemma find_common_suffix_run:
  "find_common_suffix isalnum s1 s2 =
     Inr (rev (common_run (\<lambda>c. \<not> isalnum c) (rev s1) (rev s2)))"
  unfolding find_common_suffix_def
  by (subst find_common_suffix_loop_run) simp_all

lemma replace_once_prefix:
  "prefix old s \<Longrightarrow> replace_once s old new = new @ drop (length old) s"
  by (cases s) (auto simp: prefix_def)

lemma replace_once_longer:
  "length s < length old \<Longrightarrow> replace_once s old new = s"
  by (induction s) auto

lemma rev_replace_once_suffix:
  "suffix suf s \<Longrightarrow> rev (replace_once (rev s) (rev suf) []) = take (length s - length suf) s"
proof -
  assume "suffix suf s"
  then have "prefix (rev suf) (rev s)" by (simp add: suffix_to_prefix)
  then have "replace_once (rev s) (rev suf) [] = drop (length suf) (rev s)"
    by (simp add: replace_once_prefix)
  then show ?thesis by (simp add: rev_drop)
qed


lemma extract_intermediate_diff_closed:
  "extract_intermediate_diff isalnum cur old =
     Inr (let suf = rev (common_run (\<lambda>c. \<not> isalnum c) (rev cur) (rev old));
              old' = take (length old - length suf) old;
              pre = common_run (\<lambda>_. True) cur old';
              d1 = take (length cur - length suf) cur
          in if length pre \<le> length d1 then drop (length pre) d1 else d1)"
proof -
  define suf where "suf = rev (common_run (\<lambda>c. \<not> isalnum c) (rev cur) (rev old))"
  define old' where "old' = take (length old - length suf) old"
  define pre where "pre = common_run (\<lambda>_. True) cur old'"
  define d1 where "d1 = take (length cur - length suf) cur"
  have s1: "suffix suf cur" and s2: "suffix suf old"
    unfolding suf_def by (simp_all add: suffix_to_prefix common_run_prefix1 common_run_prefix2)
  have fs: "find_common_suffix isalnum cur old = Inr suf"
    by (simp add: find_common_suffix_run suf_def)
  have o: "rev (replace_once (rev old) (rev suf) []) = old'"
    using s2 by (simp add: rev_replace_once_suffix old'_def)
  have fp: "find_common_prefix cur old' = Inr pre"
    by (simp add: find_common_prefix_run pre_def)
  have d: "(if length suf \<noteq> 0 then rev (replace_once (rev cur) (rev suf) []) else cur) = d1"
    using s1 by (simp add: rev_replace_once_suffix d1_def)
  have pc: "prefix pre cur" unfolding pre_def by (rule common_run_prefix1)
  have dc: "prefix d1 cur" unfolding d1_def by (rule take_is_prefix)
  have r: "(if length pre \<noteq> 0 then replace_once d1 pre [] else d1) =
           (if length pre \<le> length d1 then drop (length pre) d1 else d1)"
  proof (cases "length pre \<le> length d1")
    case True
    with pc dc have "prefix pre d1" by (auto intro: prefix_length_prefix)
    then show ?thesis using True by (simp add: replace_once_prefix)
  next
    case False
    then show ?thesis by (simp add: replace_once_longer)
  qed
  have "extract_intermediate_diff isalnum cur old =
          Inr (if length pre \<le> length d1 then drop (length pre) d1 else d1)"
    by (simp only: extract_intermediate_diff_def Let_def fs sum.case o fp d r)
  then show ?thesis
    by (simp add: Let_def suf_def old'_def pre_def d1_def)
qed


lemma common_run_append:
  "\<forall>c\<in>set t. P c \<Longrightarrow> common_run P (t @ xs) (t @ ys) = t @ common_run P xs ys"
  by (induction t) auto

lemma common_run_prefix_arg:
  "prefix a b \<Longrightarrow> common_run (\<lambda>_. True) b a = a"
  by (induction a arbitrary: b) (auto elim!: prefixE)

lemma common_run_hd_stop:
  "xs = [] \<or> ys = [] \<or> hd xs \<noteq> hd ys \<or> \<not> P (hd xs) \<Longrightarrow> common_run P xs ys = []"
  by (cases xs; cases ys) auto

lemma extract_intermediate_diff_parts:
  assumes "suf = rev (common_run (\<lambda>c. \<not> isalnum c) (rev cur) (rev old))"
    and "old' = take (length old - length suf) old"
    and "pre = common_run (\<lambda>_. True) cur old'"
    and "d1 = take (length cur - length suf) cur"
  shows "extract_intermediate_diff isalnum cur old =
           Inr (if length pre \<le> length d1 then drop (length pre) d1 else d1)"
  unfolding assms extract_intermediate_diff_closed Let_def ..

section \<open>The matchers\<close>

lemma find_common_prefix_literal:
  "find_common_prefix ''{\"fruit\": \"ap\"}'' ''{\"fruit\": \"apple\"}'' = Inr ''{\"fruit\": \"ap''"
  by code_simp

lemma find_common_suffix_literal:
  "find_common_suffix ascii_isalnum ''{\"fruit\": \"ap\"}'' ''{\"fruit\": \"apple\"}'' = Inr ''\"}''"
  by code_simp

text \<open>
  C3.  For all strings \<open>a\<close> and \<open>b\<close>, \<open>find_common_prefix a b\<close> returns (without
  raising) the longest common prefix \<open>p\<close> of \<open>a\<close> and \<open>b\<close>: \<open>p\<close> is a prefix of
  both; every common prefix \<open>q\<close> is at most as long as \<open>p\<close> (it is even a prefix of
  \<open>p\<close>); \<open>p\<close> is empty when the first characters differ; \<open>p\<close> is the shorter
  string when that string is a prefix of the longer one; and on the literal scenario
  the result is \<^verbatim>\<open>{"fruit": "ap\<close>.
\<close>

theorem C3_find_common_prefix_longest:
  "\<exists>p. find_common_prefix a b = Inr p
      \<and> prefix p a \<and> prefix p b
      \<and> (\<forall>q. prefix q a \<and> prefix q b \<longrightarrow> length q \<le> length p \<and> prefix q p)
      \<and> (a \<noteq> [] \<and> b \<noteq> [] \<and> hd a \<noteq> hd b \<longrightarrow> p = [])
      \<and> (prefix a b \<longrightarrow> p = a)
      \<and> (prefix b a \<longrightarrow> p = b)
      \<and> find_common_prefix ''{\"fruit\": \"ap\"}'' ''{\"fruit\": \"apple\"}''
          = Inr ''{\"fruit\": \"ap''"
proof -
  let ?p = "common_run (\<lambda>_. True) a b"
  have mx: "prefix q ?p" if "prefix q a" "prefix q b" for q
    using that by (intro common_run_max) auto
  have "a \<noteq> [] \<and> b \<noteq> [] \<and> hd a \<noteq> hd b \<longrightarrow> ?p = []"
    by (auto intro: common_run_hd_stop)
  moreover have "prefix a b \<longrightarrow> ?p = a"
    by (simp add: common_run_prefix_arg common_run_commute[of _ a b])
  moreover have "prefix b a \<longrightarrow> ?p = b"
    by (simp add: common_run_prefix_arg)
  moreover have "\<forall>q. prefix q a \<and> prefix q b \<longrightarrow> length q \<le> length ?p \<and> prefix q ?p"
    using mx by (auto dest: prefix_length_le)
  ultimately show ?thesis
    using find_common_prefix_literal
    by (intro exI[of _ ?p]) (simp add: find_common_prefix_run common_run_prefix1 common_run_prefix2)
qed

theorem C3_witness:
  "find_common_prefix ''ab'' ''abc'' = Inr ''ab''
   \<and> find_common_prefix ''abcd'' ''ab'' = Inr ''ab''
   \<and> find_common_prefix ''xb'' ''ab'' = Inr ''''
   \<and> find_common_prefix ''abxd'' ''abyd'' = Inr ''ab''"
proof -
  have 1: "find_common_prefix ''ab'' ''abc'' = Inr ''ab''"
    using C3_find_common_prefix_longest[of "''ab''" "''abc''"] by auto
  have 2: "find_common_prefix ''abcd'' ''ab'' = Inr ''ab''"
    using C3_find_common_prefix_longest[of "''abcd''" "''ab''"] by auto
  have 3: "find_common_prefix ''xb'' ''ab'' = Inr ''''"
    using C3_find_common_prefix_longest[of "''xb''" "''ab''"] by auto
  obtain p where p: "find_common_prefix ''abxd'' ''abyd'' = Inr p" "prefix p ''abxd''" "prefix p ''abyd''"
    "\<forall>q. prefix q ''abxd'' \<and> prefix q ''abyd'' \<longrightarrow> length q \<le> length p \<and> prefix q p"
    using C3_find_common_prefix_longest[of "''abxd''" "''abyd''"] by blast
  from p(4) have "prefix ''ab'' p" by simp
  with p(2,3) have "p = ''ab''"
    by (auto simp: prefix_def append_eq_Cons_conv Cons_eq_append_conv)
  with p(1) 1 2 3 show ?thesis by simp
qed


lemma common_run_takeWhile:
  "common_run P xs ys = map fst (takeWhile (\<lambda>(x, y). x = y \<and> P x) (zip xs ys))"
  by (induction P xs ys rule: common_run.induct) auto

text \<open>
  C4.  For all strings \<open>a\<close> and \<open>b\<close>, \<open>find_common_suffix a b\<close> returns (without
  raising) the string \<open>r\<close> read off by scanning both strings backward from their last
  characters while the two characters are identical and not alphanumeric.  So \<open>r\<close> is a
  suffix of both, none of its characters is alphanumeric, it is the longest such string
  (every common suffix without alphanumeric characters is a suffix of \<open>r\<close>), and where
  the scan stopped before the shorter string was exhausted, the next pair of characters
  differs or is alphanumeric.  On the literal scenario the result is \<^verbatim>\<open>"}\<close>.
\<close>

theorem C4_find_common_suffix_longest:
  "\<exists>r. find_common_suffix isalnum a b = Inr r
      \<and> r = rev (map fst (takeWhile (\<lambda>(x, y). x = y \<and> \<not> isalnum x) (zip (rev a) (rev b))))
      \<and> suffix r a \<and> suffix r b
      \<and> (\<forall>c \<in> set r. \<not> isalnum c)
      \<and> (\<forall>q. suffix q a \<and> suffix q b \<and> (\<forall>c \<in> set q. \<not> isalnum c)
            \<longrightarrow> length q \<le> length r \<and> suffix q r)
      \<and> (length r < length a \<and> length r < length b \<longrightarrow>
            a ! (length a - Suc (length r)) \<noteq> b ! (length b - Suc (length r))
            \<or> isalnum (a ! (length a - Suc (length r))))
      \<and> find_common_suffix ascii_isalnum ''{\"fruit\": \"ap\"}'' ''{\"fruit\": \"apple\"}''
          = Inr ''\"}''"
proof -
  let ?P = "\<lambda>c. \<not> isalnum c"
  let ?c = "common_run ?P (rev a) (rev b)"
  let ?r = "rev ?c"
  have f: "find_common_suffix isalnum a b = Inr ?r"
    by (rule find_common_suffix_run)
  have tw: "?r = rev (map fst (takeWhile (\<lambda>(x, y). x = y \<and> \<not> isalnum x) (zip (rev a) (rev b))))"
    by (simp add: common_run_takeWhile)
  have sa: "suffix ?r a" and sb: "suffix ?r b"
    by (simp_all add: suffix_to_prefix common_run_prefix1 common_run_prefix2)
  have na: "\<forall>c \<in> set ?r. \<not> isalnum c"
    by (auto dest: common_run_all)
  have mx: "\<forall>q. suffix q a \<and> suffix q b \<and> (\<forall>c \<in> set q. \<not> isalnum c)
            \<longrightarrow> length q \<le> length ?r \<and> suffix q ?r"
  proof (intro allI impI)
    fix q assume q: "suffix q a \<and> suffix q b \<and> (\<forall>c \<in> set q. \<not> isalnum c)"
    then have "prefix (rev q) ?c"
      by (intro common_run_max) (auto simp: suffix_to_prefix)
    then have "suffix q ?r" by (simp add: suffix_to_prefix)
    then show "length q \<le> length ?r \<and> suffix q ?r"
      by (auto dest: suffix_length_le)
  qed
  have st: "length ?r < length a \<and> length ?r < length b \<longrightarrow>
            a ! (length a - Suc (length ?r)) \<noteq> b ! (length b - Suc (length ?r))
            \<or> isalnum (a ! (length a - Suc (length ?r)))"
  proof
    assume l: "length ?r < length a \<and> length ?r < length b"
    then have "rev a ! length ?c \<noteq> rev b ! length ?c \<or> \<not> ?P (rev a ! length ?c)"
      by (intro common_run_stop) auto
    with l show "a ! (length a - Suc (length ?r)) \<noteq> b ! (length b - Suc (length ?r))
            \<or> isalnum (a ! (length a - Suc (length ?r)))"
      by (simp add: rev_nth)
  qed
  show ?thesis
    by (intro exI[of _ ?r] conjI f tw sa sb na mx st find_common_suffix_literal)
qed

theorem C4_witness:
  "find_common_suffix ascii_isalnum ''ab, '' ''xb, '' = Inr '', ''"
proof -
  obtain r where r: "find_common_suffix ascii_isalnum ''ab, '' ''xb, '' = Inr r"
    "suffix r ''ab, ''" "\<forall>c \<in> set r. \<not> ascii_isalnum c"
    "\<forall>q. suffix q ''ab, '' \<and> suffix q ''xb, '' \<and> (\<forall>c \<in> set q. \<not> ascii_isalnum c)
            \<longrightarrow> length q \<le> length r \<and> suffix q r"
    using C4_find_common_suffix_longest[of ascii_isalnum "''ab, ''" "''xb, ''"] by blast
  have "suffix '', '' ''ab, ''" "suffix '', '' ''xb, ''" "\<forall>c \<in> set '', ''. \<not> ascii_isalnum c"
    by (simp_all add: suffix_def ascii_isalnum_def)
  with r(4) have 1: "suffix '', '' r" by blast
  have "ascii_isalnum CHR ''b''" by (simp add: ascii_isalnum_def)
  with r(3) have "CHR ''b'' \<notin> set r" by blast
  with r(2) 1 have "r = '', ''"
    by (auto simp: suffix_def append_eq_Cons_conv Cons_eq_append_conv append_eq_append_conv2)
  with r(1) show ?thesis by simp
qed

text \<open>
  C6.  Both matchers are symmetric in their two arguments.
\<close>

theorem C6_matchers_symmetric:
  "find_common_prefix a b = find_common_prefix b a
   \<and> find_common_suffix isalnum a b = find_common_suffix isalnum b a"
  by (simp add: find_common_prefix_run find_common_suffix_run common_run_commute[of _ a b]
      common_run_commute[of _ "rev a" "rev b"])


section \<open>The diff extractor\<close>

text \<open>
  C7.  A call with identical current and previous snapshots emits nothing.  This holds
  for every string \<open>a\<close>, so in particular for every string that ends only in structural
  punctuation.
\<close>

theorem C7_no_change_emits_nothing:
  "extract_intermediate_diff isalnum a a = Inr []"
proof -
  define suf where "suf = rev (common_run (\<lambda>c. \<not> isalnum c) (rev a) (rev a))"
  define a' where "a' = take (length a - length suf) a"
  have "common_run (\<lambda>_. True) a a' = a'"
    unfolding a'_def by (intro common_run_prefix_arg take_is_prefix)
  then have "extract_intermediate_diff isalnum a a =
          Inr (if length a' \<le> length a' then drop (length a') a' else a')"
    by (intro extract_intermediate_diff_parts[where suf = suf and old' = a']) (simp_all add: suf_def a'_def)
  then show ?thesis by simp
qed

text \<open>
  C8.  The result of \<open>extract_intermediate_diff cur old\<close> is a contiguous substring
  \<open>cur[i : j]\<close> of \<open>cur\<close> with \<open>0 \<le> i \<le> j \<le> len(cur)\<close>: \<open>j\<close> is where the
  common suffix starts in \<open>cur\<close> (the trailing removal deletes exactly the suffix at
  the end of \<open>cur\<close>), and \<open>i\<close> is the length of the common prefix when the prefix
  occurs in the suffix-stripped string, where it is then a leading occurrence, and \<open>0\<close>
  when it does not occur.
\<close>

theorem C8_diff_is_substring:
  "\<exists>r suf pre i j.
      extract_intermediate_diff isalnum cur old = Inr r
    \<and> find_common_suffix isalnum cur old = Inr suf
    \<and> find_common_prefix cur (take (length old - length suf) old) = Inr pre
    \<and> suffix suf cur \<and> j = length cur - length suf
    \<and> i = (if sublist pre (take j cur) then length pre else 0)
    \<and> (sublist pre (take j cur) \<longleftrightarrow> prefix pre (take j cur))
    \<and> i \<le> j \<and> j \<le> length cur
    \<and> r = take (j - i) (drop i cur)
    \<and> sublist r cur"
proof -
  define suf where "suf = rev (common_run (\<lambda>c. \<not> isalnum c) (rev cur) (rev old))"
  define old' where "old' = take (length old - length suf) old"
  define pre where "pre = common_run (\<lambda>_. True) cur old'"
  define j where "j = length cur - length suf"
  define d1 where "d1 = take j cur"
  define i where "i = (if sublist pre d1 then length pre else 0)"
  define r where "r = take (j - i) (drop i cur)"
  have pc: "prefix pre cur" unfolding pre_def by (rule common_run_prefix1)
  have dc: "prefix d1 cur" unfolding d1_def by (rule take_is_prefix)
  have ld: "length d1 = j" unfolding d1_def j_def by simp
  have sp: "sublist pre d1 \<longleftrightarrow> prefix pre d1"
  proof
    assume "sublist pre d1"
    then have "length pre \<le> length d1" by (rule sublist_length_le)
    with pc dc show "prefix pre d1" by (auto intro: prefix_length_prefix)
  qed (rule prefix_imp_sublist)
  have pl: "prefix pre d1 \<longleftrightarrow> length pre \<le> length d1"
    using pc dc by (auto intro: prefix_length_prefix dest: prefix_length_le)
  have e: "extract_intermediate_diff isalnum cur old =
          Inr (if length pre \<le> length d1 then drop (length pre) d1 else d1)"
    by (rule extract_intermediate_diff_parts[where suf = suf and old' = old'])
       (simp_all add: suf_def old'_def pre_def d1_def j_def)
  have re: "(if length pre \<le> length d1 then drop (length pre) d1 else d1) = r"
  proof (cases "length pre \<le> length d1")
    case True
    then have "i = length pre" using sp pl by (simp add: i_def)
    with True show ?thesis by (auto simp: r_def d1_def drop_take)
  next
    case False
    then have "i = 0" using sp pl by (simp add: i_def)
    with False show ?thesis by (auto simp: r_def d1_def)
  qed
  have ij: "i \<le> j" unfolding i_def sp pl ld by simp
  have sr: "sublist r cur"
    unfolding r_def by (metis sublist_drop sublist_order.order.trans sublist_take)
  have fs: "find_common_suffix isalnum cur old = Inr suf"
    by (simp add: find_common_suffix_run suf_def)
  have fp: "find_common_prefix cur (take (length old - length suf) old) = Inr pre"
    by (simp add: find_common_prefix_run pre_def old'_def)
  have sc: "suffix suf cur"
    by (simp add: suf_def suffix_to_prefix common_run_prefix1)
  have jl: "j \<le> length cur" by (simp add: j_def)
  have "extract_intermediate_diff isalnum cur old = Inr r
    \<and> find_common_suffix isalnum cur old = Inr suf
    \<and> find_common_prefix cur (take (length old - length suf) old) = Inr pre
    \<and> suffix suf cur \<and> j = length cur - length suf
    \<and> i = (if sublist pre (take j cur) then length pre else 0)
    \<and> (sublist pre (take j cur) \<longleftrightarrow> prefix pre (take j cur))
    \<and> i \<le> j \<and> j \<le> length cur
    \<and> r = take (j - i) (drop i cur)
    \<and> sublist r cur"
    using e re fs fp sc ij jl sr sp
    by (simp add: j_def i_def r_def d1_def)
  then show ?thesis by blast
qed


lemma extract_intermediate_diff_literal:
  "extract_intermediate_diff ascii_isalnum ''{\"fruit\": \"apple\"}'' ''{\"fruit\": \"ap\"}''
     = Inr ''ple''"
  by code_simp

lemma strip_trailing_suffix:
  "suffix x s \<Longrightarrow> strip_trailing x s = take (length s - length x) s"
  by (simp add: strip_trailing_def)

lemma strip_leading_prefix_of_same:
  "prefix x c \<Longrightarrow> prefix d c \<Longrightarrow>
   strip_leading x d = (if length x \<le> length d then drop (length x) d else d)"
  by (auto simp: strip_leading_def intro: prefix_length_prefix dest: prefix_length_le)

text \<open>
  C2.  For every pair of strings, \<open>extract_intermediate_diff\<close> returns what the
  reference algorithm of the specification returns: with \<open>suffix\<close> the common suffix
  of \<open>current\<close> and \<open>previous\<close>, \<open>previous'\<close> is \<open>previous\<close> without one trailing
  occurrence of \<open>suffix\<close>, \<open>prefix\<close> is the common prefix of \<open>current\<close> and
  \<open>previous'\<close>, and the result is \<open>current\<close> without one trailing occurrence of
  \<open>suffix\<close> and then without one leading occurrence of \<open>prefix\<close>.  On the literal
  scenario the result is \<^verbatim>\<open>ple\<close>.
\<close>

theorem C2_diff_refines_reference_algorithm:
  "extract_intermediate_diff isalnum current previous = DiffExtractor_spec isalnum current previous
   \<and> extract_intermediate_diff ascii_isalnum ''{\"fruit\": \"apple\"}'' ''{\"fruit\": \"ap\"}''
       = Inr ''ple''"
proof -
  define suf where "suf = rev (common_run (\<lambda>c. \<not> isalnum c) (rev current) (rev previous))"
  define old' where "old' = take (length previous - length suf) previous"
  define pre where "pre = common_run (\<lambda>_. True) current old'"
  define d1 where "d1 = take (length current - length suf) current"
  have s1: "suffix suf current" and s2: "suffix suf previous"
    unfolding suf_def by (simp_all add: suffix_to_prefix common_run_prefix1 common_run_prefix2)
  have fs: "find_common_suffix isalnum current previous = Inr suf"
    by (simp add: find_common_suffix_run suf_def)
  have o: "strip_trailing suf previous = old'"
    using s2 by (simp add: strip_trailing_suffix old'_def)
  have fp: "find_common_prefix current old' = Inr pre"
    by (simp add: find_common_prefix_run pre_def)
  have d: "strip_trailing suf current = d1"
    using s1 by (simp add: strip_trailing_suffix d1_def)
  have pc: "prefix pre current" unfolding pre_def by (rule common_run_prefix1)
  have dc: "prefix d1 current" unfolding d1_def by (rule take_is_prefix)
  have "DiffExtractor_spec isalnum current previous =
          Inr (if length pre \<le> length d1 then drop (length pre) d1 else d1)"
    by (simp only: DiffExtractor_spec_def Let_def fs sum.case o fp d
          strip_leading_prefix_of_same[OF pc dc])
  moreover have "extract_intermediate_diff isalnum current previous =
          Inr (if length pre \<le> length d1 then drop (length pre) d1 else d1)"
    by (rule extract_intermediate_diff_parts[where suf = suf and old' = old'])
       (simp_all add: suf_def old'_def pre_def d1_def)
  ultimately show ?thesis
    using extract_intermediate_diff_literal by simp
qed


section \<open>Reconstruction of a stream\<close>

lemma strip_tail_id: "strip_structural isalnum s @ structural_tail isalnum s = s"
proof -
  have "rev (strip_structural isalnum s @ structural_tail isalnum s) = rev s"
    by (simp add: strip_structural_def structural_tail_def)
  then show ?thesis by (simp only: rev_is_rev_conv)
qed

lemma structural_tail_nonalnum: "x \<in> set (structural_tail isalnum s) \<Longrightarrow> \<not> isalnum x"
  by (auto simp: structural_tail_def dest: set_takeWhileD)

lemma strip_structural_last:
  "strip_structural isalnum s = [] \<or> isalnum (last (strip_structural isalnum s))"
proof (cases "dropWhile (\<lambda>c. \<not> isalnum c) (rev s)")
  case Nil
  then show ?thesis by (simp add: strip_structural_def)
next
  case (Cons x xs)
  then have "isalnum x" using hd_dropWhile[of "\<lambda>c. \<not> isalnum c" "rev s"] by simp
  with Cons show ?thesis by (simp add: strip_structural_def)
qed

lemma common_run_beyond:
  "\<exists>x \<in> set e. x \<notin> set a \<Longrightarrow>
   common_run (\<lambda>_. True) (e @ r) a = common_run (\<lambda>_. True) e a
   \<and> length (common_run (\<lambda>_. True) e a) < length e"
proof (induction e arbitrary: a)
  case Nil
  then show ?case by simp
next
  case (Cons x e)
  show ?case
  proof (cases a)
    case Nil
    then show ?thesis by simp
  next
    case (Cons y a')
    show ?thesis
    proof (cases "x = y")
      case True
      with Cons.prems Cons have "\<exists>x \<in> set e. x \<notin> set a'" by auto
      from Cons.IH[OF this] True Cons show ?thesis by simp
    next
      case False
      with Cons show ?thesis by simp
    qed
  qed
qed

lemma diff_step_general:
  assumes a: "\<forall>x \<in> set a. \<not> isalnum x" and b: "\<forall>x \<in> set b. \<not> isalnum x"
    and u: "\<forall>x \<in> set u. \<not> isalnum x"
    and c: "c = [] \<or> isalnum (last c)"
    and e: "e \<noteq> []" "isalnum (last e)"
    and ab: "a = [] \<or> b = [] \<or> last a \<noteq> last b"
  shows "extract_intermediate_diff isalnum (c @ e @ b @ u) (c @ a @ u) =
           Inr (drop (length (common_run (\<lambda>_. True) e a)) e @ b)"
proof -
  let ?Q = "\<lambda>x. \<not> isalnum x"
  let ?X = "rev b @ rev e @ rev c" and ?Y = "rev a @ rev c"
  let ?k = "length (common_run (\<lambda>_. True) e a)"
  have xy: "common_run ?Q ?X ?Y = []"
  proof (cases "b = []")
    case True
    with e show ?thesis by (intro common_run_hd_stop) (simp add: hd_append hd_rev)
  next
    case bn: False
    show ?thesis
    proof (cases "a = []")
      case True
      show ?thesis
      proof (cases "c = []")
        case True
        with \<open>a = []\<close> show ?thesis by simp
      next
        case False
        with c have "isalnum (last c)" by simp
        moreover have "\<not> isalnum (last b)" using b bn by simp
        ultimately have "last b \<noteq> last c" by auto
        with bn False True show ?thesis
          by (intro common_run_hd_stop) (simp add: hd_append hd_rev)
      qed
    next
      case False
      with bn ab show ?thesis
        by (intro common_run_hd_stop) (simp add: hd_append hd_rev)
    qed
  qed
  have "common_run ?Q (rev u @ ?X) (rev u @ ?Y) = rev u @ common_run ?Q ?X ?Y"
    using u by (intro common_run_append) simp
  then have suf: "rev (common_run ?Q (rev (c @ e @ b @ u)) (rev (c @ a @ u))) = u"
    using xy by simp
  have "\<exists>x \<in> set e. x \<notin> set a"
    using e a by (intro bexI[of _ "last e"]) auto
  from common_run_beyond[OF this, of "b @ u"]
  have k: "common_run (\<lambda>_. True) (e @ b @ u) a = common_run (\<lambda>_. True) e a" "?k < length e"
    by simp_all
  have "common_run (\<lambda>_. True) (c @ e @ b @ u) (c @ a) =
          c @ common_run (\<lambda>_. True) (e @ b @ u) a"
    by (intro common_run_append) simp
  then have p: "common_run (\<lambda>_. True) (c @ e @ b @ u) (c @ a) = c @ common_run (\<lambda>_. True) e a"
    using k(1) by simp
  have 1: "u = rev (common_run ?Q (rev (c @ e @ b @ u)) (rev (c @ a @ u)))"
    using suf by simp
  have 2: "c @ a = take (length (c @ a @ u) - length u) (c @ a @ u)"
    by simp
  have 3: "c @ common_run (\<lambda>_. True) e a = common_run (\<lambda>_. True) (c @ e @ b @ u) (c @ a)"
    using p by simp
  have 4: "c @ e @ b = take (length (c @ e @ b @ u) - length u) (c @ e @ b @ u)"
    by simp
  have "extract_intermediate_diff isalnum (c @ e @ b @ u) (c @ a @ u) =
          Inr (if length (c @ common_run (\<lambda>_. True) e a) \<le> length (c @ e @ b)
               then drop (length (c @ common_run (\<lambda>_. True) e a)) (c @ e @ b) else c @ e @ b)"
    by (rule extract_intermediate_diff_parts[OF 1 2 3 4])
  with k(2) show ?thesis by simp
qed


lemma common_suffix_split:
  "\<exists>a b u. xs = a @ u \<and> ys = b @ u \<and> (a = [] \<or> b = [] \<or> last a \<noteq> last b)"
proof (induction xs arbitrary: ys rule: rev_induct)
  case Nil
  show ?case by (rule exI[of _ "[]"], rule exI[of _ ys], rule exI[of _ "[]"]) simp
next
  case (snoc x xs)
  show ?case
  proof (cases ys rule: rev_cases)
    case Nil
    show ?thesis
      by (rule exI[of _ "xs @ [x]"], rule exI[of _ "[]"], rule exI[of _ "[]"]) (simp add: Nil)
  next
    case (snoc ys' y)
    show ?thesis
    proof (cases "x = y")
      case True
      from snoc.IH[of ys'] obtain a b u where
        "xs = a @ u" "ys' = b @ u" "a = [] \<or> b = [] \<or> last a \<noteq> last b" by blast
      then show ?thesis
        using True snoc
        by (intro exI[of _ a] exI[of _ b] exI[of _ "u @ [x]"]) simp
    next
      case False
      show ?thesis
        by (rule exI[of _ "xs @ [x]"], rule exI[of _ ys], rule exI[of _ "[]"])
           (simp add: snoc False)
    qed
  qed
qed

lemma common_run_Nil_iff:
  "e \<noteq> [] \<Longrightarrow> common_run (\<lambda>_. True) e a = [] \<longleftrightarrow> a = [] \<or> hd a \<noteq> hd e"
  by (cases e; cases a) auto

lemma diff_step_exact_iff:
  assumes "content_extends isalnum old cur"
  shows "extract_intermediate_diff isalnum cur old = Inr (appended_content isalnum old cur)
         \<longleftrightarrow> closing_kept isalnum old cur"
proof -
  define c where "c = strip_structural isalnum old"
  define e where "e = appended_content isalnum old cur"
  define told where "told = structural_tail isalnum old"
  define tnew where "tnew = structural_tail isalnum cur"
  have sc: "strip_structural isalnum cur = c @ e"
    using assms unfolding content_extends_def c_def e_def appended_content_def
    by (auto simp: strict_prefix_def elim!: prefixE)
  have en: "e \<noteq> []"
    using assms sc unfolding content_extends_def c_def by auto
  have el: "isalnum (last e)"
    using strip_structural_last[of isalnum cur] en by (simp add: sc)
  have cl: "c = [] \<or> isalnum (last c)"
    unfolding c_def by (rule strip_structural_last)
  have old: "old = c @ told" and cur: "cur = c @ e @ tnew"
    using strip_tail_id[of isalnum old] strip_tail_id[of isalnum cur] sc
    by (simp_all add: c_def told_def tnew_def)
  obtain a b u where s: "told = a @ u" "tnew = b @ u" "a = [] \<or> b = [] \<or> last a \<noteq> last b"
    using common_suffix_split[of told tnew] by blast
  have na: "\<forall>x \<in> set a. \<not> isalnum x" "\<forall>x \<in> set u. \<not> isalnum x"
    using structural_tail_nonalnum[of _ isalnum old] s(1) by (auto simp: told_def)
  have nb: "\<forall>x \<in> set b. \<not> isalnum x"
    using structural_tail_nonalnum[of _ isalnum cur] s(2) by (auto simp: tnew_def)
  let ?k = "length (common_run (\<lambda>_. True) e a)"
  have kl: "?k \<le> length e"
    using common_run_prefix1[of "\<lambda>_. True" e a] by (rule prefix_length_le)
  have d: "extract_intermediate_diff isalnum cur old = Inr (drop ?k e @ b)"
    unfolding old cur s using diff_step_general[OF na(1) nb na(2) cl en el s(3)] by simp
  have ex: "drop ?k e @ b = e \<longleftrightarrow> b = [] \<and> common_run (\<lambda>_. True) e a = []"
  proof
    assume eq: "drop ?k e @ b = e"
    have "b = []"
    proof (rule ccontr)
      assume "b \<noteq> []"
      then have "last (drop ?k e @ b) = last b" by simp
      with eq have "last e = last b" by simp
      with el nb \<open>b \<noteq> []\<close> show False by auto
    qed
    from eq this have "length (drop ?k e) = length e" by simp
    then have "length e - ?k = length e" by simp
    moreover have "0 < length e" using en by simp
    ultimately have "?k = 0" by arith
    with \<open>b = []\<close> show "b = [] \<and> common_run (\<lambda>_. True) e a = []" by simp
  qed simp
  have ck: "closing_kept isalnum old cur \<longleftrightarrow> b = [] \<and> (a = [] \<or> hd a \<noteq> hd e)"
  proof
    assume k: "closing_kept isalnum old cur"
    then have "suffix (b @ u) (a @ u)"
      by (simp add: closing_kept_def told_def[symmetric] tnew_def[symmetric] s)
    then have sba: "suffix b a" by simp
    have bn: "b = []"
    proof (rule ccontr)
      assume "b \<noteq> []"
      with sba have "a \<noteq> []" "last a = last b" by (auto simp: suffix_def)
      with s(3) \<open>b \<noteq> []\<close> show False by simp
    qed
    with k show "b = [] \<and> (a = [] \<or> hd a \<noteq> hd e)"
      by (simp add: closing_kept_def told_def[symmetric] tnew_def[symmetric] s e_def[symmetric] Let_def)
  next
    assume "b = [] \<and> (a = [] \<or> hd a \<noteq> hd e)"
    then show "closing_kept isalnum old cur"
      by (simp add: closing_kept_def told_def[symmetric] tnew_def[symmetric] s e_def[symmetric]
            Let_def suffix_def)
  qed
  show ?thesis
    unfolding d ck e_def[symmetric] using ex common_run_Nil_iff[OF en, of a] by simp
qed


lemma stream_diffs_exact_steps:
  "successively (\<lambda>old cur. content_extends isalnum old cur \<and> closing_kept isalnum old cur)
     (s1 # rest) \<Longrightarrow>
   stream_diffs isalnum (s1 # rest) =
     Inr (drop (length (strip_structural isalnum s1))
            (strip_structural isalnum (last (s1 # rest))))
   \<and> prefix (strip_structural isalnum s1) (strip_structural isalnum (last (s1 # rest)))"
proof (induction rest arbitrary: s1)
  case Nil
  then show ?case by simp
next
  case (Cons s2 rest)
  let ?c1 = "strip_structural isalnum s1" and ?c2 = "strip_structural isalnum s2"
  let ?cL = "strip_structural isalnum (last (s2 # rest))"
  from Cons.prems have st: "content_extends isalnum s1 s2" "closing_kept isalnum s1 s2"
    and rest: "successively (\<lambda>old cur. content_extends isalnum old cur \<and> closing_kept isalnum old cur)
                 (s2 # rest)"
    by simp_all
  have d: "extract_intermediate_diff isalnum s2 s1 = Inr (drop (length ?c1) ?c2)"
    using diff_step_exact_iff[OF st(1)] st(2) by (simp add: appended_content_def)
  from Cons.IH[OF rest]
  have ih: "stream_diffs isalnum (s2 # rest) = Inr (drop (length ?c2) ?cL)" and p2: "prefix ?c2 ?cL"
    by simp_all
  have p1: "prefix ?c1 ?c2"
    using st(1) by (simp add: content_extends_def strict_prefix_def)
  from p1 obtain x where x: "?c2 = ?c1 @ x" by (auto elim: prefixE)
  from p2 obtain y where y: "?cL = ?c2 @ y" by (auto elim: prefixE)
  have "drop (length ?c1) ?c2 @ drop (length ?c2) ?cL = drop (length ?c1) ?cL"
    unfolding y by (simp add: x)
  moreover have "prefix ?c1 ?cL" using p1 p2 by (rule prefix_order.trans)
  ultimately show ?case using d ih by simp
qed

lemma stream_diffs_literal_seed:
  "stream_diffs ascii_isalnum ['''', ''{\"fruit\": \"ap\"}''] = Inr ''{\"fruit\": \"ap\"}''"
  "strip_structural ascii_isalnum ''{\"fruit\": \"ap\"}'' = ''{\"fruit\": \"ap''"
  "stream_diffs ascii_isalnum ['''', ''{\"fruit\": \"ap\"}'', ''{\"fruit\": \"apple\"}'']
     = Inr ''{\"fruit\": \"ap\"}ple''"
  by code_simp+

lemma stream_diffs_literal_dropped_quote:
  "content_extends ascii_isalnum ''{\"a\": \"x\"}'' ''{\"a\": \"x\", \"b\": 1}''"
  "closing_kept ascii_isalnum ''{\"a\": \"x\"}'' ''{\"a\": \"x\", \"b\": 1}'' = False"
  "appended_content ascii_isalnum ''{\"a\": \"x\"}'' ''{\"a\": \"x\", \"b\": 1}'' = ''\", \"b\": 1''"
  "extract_intermediate_diff ascii_isalnum ''{\"a\": \"x\", \"b\": 1}'' ''{\"a\": \"x\"}''
     = Inr '', \"b\": 1''"
  by code_simp+

lemma stream_diffs_literal_early_bracket:
  "content_extends ascii_isalnum ''{\"a\": 1}'' ''{\"a\": 1, \"b\": [2]}''"
  "closing_kept ascii_isalnum ''{\"a\": 1}'' ''{\"a\": 1, \"b\": [2]}'' = False"
  "appended_content ascii_isalnum ''{\"a\": 1}'' ''{\"a\": 1, \"b\": [2]}'' = '', \"b\": [2''"
  "extract_intermediate_diff ascii_isalnum ''{\"a\": 1, \"b\": [2]}'' ''{\"a\": 1}''
     = Inr '', \"b\": [2]''"
  by code_simp+

text \<open>
  C1 as stated fails already at the first call of a stream.  Seeded with the empty
  previous snapshot, the Diff Extractor finds no common suffix (the loop of
  \<open>find_common_suffix\<close> runs over \<open>min(len(s1), 0) = 0\<close> positions), so it returns the
  first snapshot whole, its speculative closing characters included.  The snapshots
  \<^verbatim>\<open>""\<close>, \<^verbatim>\<open>{"fruit": "ap"}\<close> grow (as strings and in content), the diff is
  \<^verbatim>\<open>{"fruit": "ap"}\<close>, but the last snapshot without its trailing structural
  characters is \<^verbatim>\<open>{"fruit": "ap\<close>.  Continuing the stream with
  \<^verbatim>\<open>{"fruit": "apple"}\<close> gives \<^verbatim>\<open>{"fruit": "ap"}ple\<close>.

  Two more steps with strictly growing content lose the reconstruction, now after the
  first call.  From \<^verbatim>\<open>{"a": "x"}\<close> to \<^verbatim>\<open>{"a": "x", "b": 1}\<close> the closing
  quote of \<^verbatim>\<open>"x"\<close> leaves the structural tail and becomes content; the diff is
  \<^verbatim>\<open>, "b": 1\<close> and the quote is never emitted.  From \<^verbatim>\<open>{"a": 1}\<close> to
  \<^verbatim>\<open>{"a": 1, "b": [2]}\<close> the tail gains a closing bracket; the diff is
  \<^verbatim>\<open>, "b": [2]\<close> and the bracket is emitted before its time.
\<close>

theorem C1_counterexample:
  "hd ['''', ''{\"fruit\": \"ap\"}''] = ''''
   \<and> strict_prefix '''' ''{\"fruit\": \"ap\"}''
   \<and> strict_prefix (strip_structural ascii_isalnum '''')
         (strip_structural ascii_isalnum ''{\"fruit\": \"ap\"}'')
   \<and> stream_diffs ascii_isalnum ['''', ''{\"fruit\": \"ap\"}''] = Inr ''{\"fruit\": \"ap\"}''
   \<and> strip_structural ascii_isalnum (last ['''', ''{\"fruit\": \"ap\"}'']) = ''{\"fruit\": \"ap''
   \<and> stream_diffs ascii_isalnum ['''', ''{\"fruit\": \"ap\"}'']
       \<noteq> Inr (strip_structural ascii_isalnum (last ['''', ''{\"fruit\": \"ap\"}'']))
   \<and> stream_diffs ascii_isalnum ['''', ''{\"fruit\": \"ap\"}'', ''{\"fruit\": \"apple\"}'']
       = Inr ''{\"fruit\": \"ap\"}ple''
   \<and> content_extends ascii_isalnum ''{\"a\": \"x\"}'' ''{\"a\": \"x\", \"b\": 1}''
   \<and> appended_content ascii_isalnum ''{\"a\": \"x\"}'' ''{\"a\": \"x\", \"b\": 1}'' = ''\", \"b\": 1''
   \<and> extract_intermediate_diff ascii_isalnum ''{\"a\": \"x\", \"b\": 1}'' ''{\"a\": \"x\"}''
       = Inr '', \"b\": 1''
   \<and> content_extends ascii_isalnum ''{\"a\": 1}'' ''{\"a\": 1, \"b\": [2]}''
   \<and> appended_content ascii_isalnum ''{\"a\": 1}'' ''{\"a\": 1, \"b\": [2]}'' = '', \"b\": [2''
   \<and> extract_intermediate_diff ascii_isalnum ''{\"a\": 1, \"b\": [2]}'' ''{\"a\": 1}''
       = Inr '', \"b\": [2]''"
proof -
  have 3: "strip_structural ascii_isalnum '''' = ''''"
    by (simp add: strip_structural_def)
  show ?thesis
    unfolding stream_diffs_literal_seed 3
    using stream_diffs_literal_dropped_quote stream_diffs_literal_early_bracket
    by (simp add: stream_diffs_literal_seed)
qed

text \<open>
  C1, amended.  Let \<open>s0 = ""\<close>, \<open>s1\<close>, ..., \<open>sn\<close> (\<open>n \<ge> 1\<close>) be snapshots such that,
  from \<open>s1\<close> on, each snapshot strictly extends the content of the one before
  (\<open>content_extends\<close>) and keeps its closing characters (\<open>closing_kept\<close>): its
  structural tail is a suffix of the previous structural tail, and where closing
  characters were dropped, the appended content does not begin with the first of them.
  Then the first call returns \<open>s1\<close> whole and every later call returns exactly the
  appended content, so the concatenation of the diffs is \<open>s1\<close> followed by the content
  of \<open>sn\<close> beyond the content of \<open>s1\<close>.  It is \<open>sn\<close> with its trailing run of
  structural characters removed if and only if \<open>s1\<close> has no structural tail.

  For a single call on snapshots with strictly growing content, \<open>closing_kept\<close> is
  exactly the condition under which the diff is the appended content
  (\<open>diff_step_exact_iff\<close>).
\<close>

theorem C1_reconstruction_after_first_snapshot:
  assumes "successively
             (\<lambda>old cur. content_extends isalnum old cur \<and> closing_kept isalnum old cur)
             (s1 # rest)"
  shows "stream_diffs isalnum ([] # s1 # rest)
           = Inr (s1 @ drop (length (strip_structural isalnum s1))
                          (strip_structural isalnum (last (s1 # rest))))
         \<and> (stream_diffs isalnum ([] # s1 # rest)
               = Inr (strip_structural isalnum (last (s1 # rest)))
            \<longleftrightarrow> structural_tail isalnum s1 = [])"
proof -
  define c1 where "c1 = strip_structural isalnum s1"
  define cL where "cL = strip_structural isalnum (last (s1 # rest))"
  have first: "extract_intermediate_diff isalnum s1 [] = Inr s1"
    by (simp add: extract_intermediate_diff_closed)
  have later: "stream_diffs isalnum (s1 # rest) = Inr (drop (length c1) cL)"
    and p: "prefix c1 cL"
    unfolding c1_def cL_def using stream_diffs_exact_steps[OF assms] by blast+
  have all: "stream_diffs isalnum ([] # s1 # rest) = Inr (s1 @ drop (length c1) cL)"
    using first later by simp
  from p obtain x where x: "cL = c1 @ x" by (auto elim: prefixE)
  have s1: "s1 = c1 @ structural_tail isalnum s1"
    unfolding c1_def by (rule strip_tail_id[symmetric])
  have "drop (length c1) cL = x" by (simp add: x)
  then have lhs: "s1 @ drop (length c1) cL = c1 @ structural_tail isalnum s1 @ x"
    using s1 by simp
  from lhs x
  have "(s1 @ drop (length c1) cL = cL) = (c1 @ structural_tail isalnum s1 @ x = c1 @ x)"
    by (rule arg_cong2[of _ _ _ _ "(=)"])
  also have "\<dots> \<longleftrightarrow> structural_tail isalnum s1 = []"
    by simp
  finally have "s1 @ drop (length c1) cL = cL \<longleftrightarrow> structural_tail isalnum s1 = []" .
  with all show ?thesis
    unfolding c1_def cL_def by simp
qed

theorem C1_witness:
  "stream_diffs ascii_isalnum ['''', ''{\"fruit\": \"ap\"}'', ''{\"fruit\": \"apple\"}'']
     = Inr ''{\"fruit\": \"ap\"}ple''
   \<and> stream_diffs ascii_isalnum ['''', ''ab\"}'', ''ab, c\"}'', ''ab, cd}'']
     = Inr ''ab\"}, cd''"
proof -
  have h1: "successively
             (\<lambda>old cur. content_extends ascii_isalnum old cur \<and> closing_kept ascii_isalnum old cur)
             [''{\"fruit\": \"ap\"}'', ''{\"fruit\": \"apple\"}'']"
    by code_simp
  have v1: "''{\"fruit\": \"ap\"}'' @ drop (length (strip_structural ascii_isalnum ''{\"fruit\": \"ap\"}''))
              (strip_structural ascii_isalnum (last [''{\"fruit\": \"ap\"}'', ''{\"fruit\": \"apple\"}'']))
            = ''{\"fruit\": \"ap\"}ple''"
    by code_simp
  have h2: "successively
             (\<lambda>old cur. content_extends ascii_isalnum old cur \<and> closing_kept ascii_isalnum old cur)
             [''ab\"}'', ''ab, c\"}'', ''ab, cd}'']"
    by code_simp
  have v2: "''ab\"}'' @ drop (length (strip_structural ascii_isalnum ''ab\"}''))
              (strip_structural ascii_isalnum (last [''ab\"}'', ''ab, c\"}'', ''ab, cd}'']))
            = ''ab\"}, cd''"
    by code_simp
  show ?thesis
    using C1_reconstruction_after_first_snapshot[OF h1]
      C1_reconstruction_after_first_snapshot[OF h2]
    unfolding v1 v2 by simp
qed

section \<open>The occurrence finder\<close>

lemma find_upt_None:
  "List.find P [a..<b] = None \<Longrightarrow> filter P [a..<b] = []"
  by (simp add: find_None_iff filter_empty_conv)

lemma find_upt_Some:
  "List.find P [a..<b] = Some k \<Longrightarrow>
     a \<le> k \<and> k < b \<and> P k \<and> filter P [a..<b] = k # filter P [Suc k..<b]"
proof (induction "b - a" arbitrary: a)
  case 0
  then show ?case by simp
next
  case (Suc n)
  then have ab: "a < b" by simp
  then have u: "[a..<b] = a # [Suc a..<b]" by (rule upt_conv_Cons)
  show ?case
  proof (cases "P a")
    case True
    with Suc(3) u ab show ?thesis by simp
  next
    case False
    with Suc(3) u have "List.find P [Suc a..<b] = Some k" by simp
    moreover have "n = b - Suc a" using Suc(2) by simp
    ultimately have "Suc a \<le> k \<and> k < b \<and> P k \<and> filter P [Suc a..<b] = k # filter P [Suc k..<b]"
      by (rule Suc(1)[rotated])
    with False u show ?thesis by simp
  qed
qed

text \<open>
  From a state with \<open>index \<ge> -1\<close> the loop appends the remaining offsets at which
  \<open>sub\<close> occurs, in increasing order, and returns.
\<close>

lemma str_find_nonneg:
  assumes "0 \<le> start"
  shows "str_find s sub start =
     (case List.find (\<lambda>k. take (length sub) (drop k s) = sub)
                [nat start ..< Suc (length s) - length sub] of
           None \<Rightarrow> - 1 | Some k \<Rightarrow> int k)"
  using assms by (simp add: str_find_def)

lemma find_all_indices_loop_run:
  assumes "- 1 \<le> index"
  shows "find_all_indices_loop s sub index acc =
     Some (acc @ map int (filter (\<lambda>k. take (length sub) (drop k s) = sub)
                 [nat (index + 1) ..< Suc (length s) - length sub]))"
  using assms
proof (induction "Suc (length s) - length sub - nat (index + 1)" arbitrary: index acc rule: less_induct)
  case less
  let ?P = "\<lambda>k. take (length sub) (drop k s) = sub"
  let ?N = "Suc (length s) - length sub"
  have nn: "0 \<le> index + 1" using less(2) by simp
  show ?case
  proof (cases "List.find ?P [nat (index + 1) ..< ?N]")
    case None
    then have "str_find s sub (index + 1) = - 1"
      using nn by (simp add: str_find_nonneg)
    moreover have "filter ?P [nat (index + 1) ..< ?N] = []"
      using None by (rule find_upt_None)
    ultimately show ?thesis
      by (subst find_all_indices_loop.simps) simp
  next
    case (Some k)
    then have sf: "str_find s sub (index + 1) = int k"
      using nn by (simp add: str_find_nonneg)
    have k: "nat (index + 1) \<le> k" "k < ?N"
      and f: "filter ?P [nat (index + 1) ..< ?N] = k # filter ?P [Suc k..<?N]"
      using find_upt_Some[OF Some] by auto
    have "find_all_indices_loop s sub (int k) (acc @ [int k]) =
            Some ((acc @ [int k]) @ map int (filter ?P [nat (int k + 1) ..< ?N]))"
      using k by (intro less(1)) auto
    moreover have "nat (int k + 1) = Suc k" by simp
    ultimately show ?thesis
      using sf f by (subst find_all_indices_loop.simps) simp
  qed
qed

lemma find_all_indices_run:
  "find_all_indices s sub =
     Some (map int (filter (\<lambda>k. take (length sub) (drop k s) = sub)
                 [0 ..< Suc (length s) - length sub]))"
  unfolding find_all_indices_def by (subst find_all_indices_loop_run) simp_all


lemma find_all_indices_literals:
  "find_all_indices ''aaa'' ''aa'' = Some [0, 1]"
  "find_all_indices ''abcabc'' ''abc'' = Some [0, 3]"
  by code_simp+

lemma find_all_indices_empty_literal:
  "find_all_indices ''abc'' '''' = Some [0, 1, 2, 3]"
  by code_simp

lemma slice_match_bound:
  "t \<noteq> [] \<Longrightarrow> take (length t) (drop i s) = t \<Longrightarrow> i < Suc (length s) - length t"
proof -
  assume t: "t \<noteq> []" and m: "take (length t) (drop i s) = t"
  have "length (take (length t) (drop i s)) = length t" using m by simp
  then have "length t \<le> length s - i" by simp
  with t show ?thesis by (cases t) auto
qed

text \<open>
  C5.  For every string \<open>s\<close> and every non-empty string \<open>t\<close>, \<open>find_all_indices s t\<close>
  returns the strictly increasing list of all offsets \<open>i\<close> with \<open>s[i : i + len(t)] = t\<close>,
  overlapping occurrences included; the list is empty when \<open>t\<close> never occurs in \<open>s\<close>,
  in particular when \<open>s\<close> is empty.  On the literal scenarios the results are
  \<open>[0, 1]\<close> and \<open>[0, 3]\<close>.
\<close>

theorem C5_find_all_indices_all_offsets:
  "(t \<noteq> [] \<longrightarrow>
   (\<exists>r. find_all_indices s t = Some r
      \<and> sorted_wrt (<) r
      \<and> set r = {int i |i. take (length t) (drop i s) = t}
      \<and> r = map int (filter (\<lambda>i. take (length t) (drop i s) = t) [0 ..< length s])
      \<and> ((\<forall>i. take (length t) (drop i s) \<noteq> t) \<longrightarrow> r = [])
      \<and> (s = [] \<longrightarrow> r = [])))
   \<and> find_all_indices ''aaa'' ''aa'' = Some [0, 1]
   \<and> find_all_indices ''abcabc'' ''abc'' = Some [0, 3]"
proof (intro impI conjI)
  assume t: "t \<noteq> []"
  let ?P = "\<lambda>i. take (length t) (drop i s) = t"
  let ?N = "Suc (length s) - length t"
  let ?r = "map int (filter ?P [0 ..< ?N])"
  have f: "find_all_indices s t = Some ?r" by (rule find_all_indices_run)
  have so: "sorted_wrt (<) ?r"
    by (simp add: sorted_wrt_map sorted_wrt_filter)
  have st: "set ?r = {int i |i. ?P i}"
    using slice_match_bound[OF t] by auto
  have "?N \<le> length s" using t by (cases t) auto
  then have "[0 ..< length s] = [0 ..< ?N] @ [?N ..< length s]"
    using upt_add_eq_append[of 0 ?N "length s - ?N"] by simp
  moreover have "filter ?P [?N ..< length s] = []"
    using slice_match_bound[OF t] by (auto simp: filter_empty_conv)
  ultimately have up: "?r = map int (filter ?P [0 ..< length s])" by simp
  have e1: "(\<forall>i. \<not> ?P i) \<longrightarrow> ?r = []" by (simp add: filter_empty_conv)
  have e2: "s = [] \<longrightarrow> ?r = []" using t by (auto simp: filter_empty_conv)
  show "\<exists>r. find_all_indices s t = Some r
      \<and> sorted_wrt (<) r
      \<and> set r = {int i |i. ?P i}
      \<and> r = map int (filter ?P [0 ..< length s])
      \<and> ((\<forall>i. take (length t) (drop i s) \<noteq> t) \<longrightarrow> r = [])
      \<and> (s = [] \<longrightarrow> r = [])"
    using f so st up e1 e2 by (intro exI[of _ ?r]) (intro conjI; assumption)
qed (rule find_all_indices_literals)+

theorem C5_witness:
  "find_all_indices ''abab'' ''ab'' = Some [0, 2]
   \<and> find_all_indices '''' ''ab'' = Some []
   \<and> find_all_indices ''abab'' ''ba'' = Some [1]"
proof -
  have 1: "map int (filter (\<lambda>i. take (length ''ab'') (drop i ''abab'') = ''ab'') [0 ..< length ''abab''])
             = [0, 2]"
    by code_simp
  have 2: "map int (filter (\<lambda>i. take (length ''ba'') (drop i ''abab'') = ''ba'') [0 ..< length ''abab''])
             = [1]"
    by code_simp
  have "find_all_indices ''abab'' ''ab'' = Some [0, 2]"
    using C5_find_all_indices_all_offsets[of "''ab''" "''abab''"] 1 by auto
  moreover have "find_all_indices '''' ''ab'' = Some []"
    using C5_find_all_indices_all_offsets[of "''ab''" "''''"] by auto
  moreover have "find_all_indices ''abab'' ''ba'' = Some [1]"
    using C5_find_all_indices_all_offsets[of "''ba''" "''abab''"] 2 by auto
  ultimately show ?thesis by simp
qed

text \<open>
  C10.  With the empty substring, \<open>find_all_indices s ""\<close> leaves its loop and returns
  the list \<open>[0, 1, ..., len(s)]\<close> of every position of \<open>s\<close> and the end position,
  which is never the empty list.
\<close>

theorem C10_find_all_indices_empty_substring:
  "find_all_indices s [] = Some (map int [0 ..< Suc (length s)])
   \<and> map int [0 ..< Suc (length s)] \<noteq> []
   \<and> length (map int [0 ..< Suc (length s)]) = length s + 1
   \<and> find_all_indices ''abc'' '''' = Some [0, 1, 2, 3]"
  using find_all_indices_empty_literal by (simp add: find_all_indices_run)


section \<open>Totality\<close>

lemma extract_intermediate_diff_returns:
  "\<exists>r. extract_intermediate_diff isalnum a b = Inr r"
  by (simp add: extract_intermediate_diff_closed)

lemma extract_intermediate_diff_empty_old:
  "extract_intermediate_diff isalnum a [] = Inr a"
  by (simp add: extract_intermediate_diff_closed)

lemma extract_intermediate_diff_empty_cur:
  "extract_intermediate_diff isalnum [] b = Inr []"
  by (simp add: extract_intermediate_diff_closed)

lemma extract_intermediate_diff_nothing_common:
  assumes "find_common_prefix a b = Inr []" and "find_common_suffix isalnum a b = Inr []"
  shows "extract_intermediate_diff isalnum a b = Inr a"
proof -
  have 1: "[] = rev (common_run (\<lambda>c. \<not> isalnum c) (rev a) (rev b))"
    using assms(2) by (simp add: find_common_suffix_run)
  have 2: "b = take (length b - length []) b" by simp
  have 3: "[] = common_run (\<lambda>_. True) a b"
    using assms(1) by (simp add: find_common_prefix_run)
  have 4: "a = take (length a - length []) a" by simp
  show ?thesis
    using extract_intermediate_diff_parts[OF 1 2 3 4] by simp
qed

lemma degenerate_literals:
  "find_common_prefix ''abc'' ''xyz'' = Inr ''''"
  "find_common_suffix ascii_isalnum ''abc'' ''xyz'' = Inr ''''"
  "extract_intermediate_diff ascii_isalnum ''abc'' ''xyz'' = Inr ''abc''"
  "extract_intermediate_diff ascii_isalnum ''abc'' '''' = Inr ''abc''"
  by code_simp+

text \<open>
  C9 as stated fails in its parenthesis: not every degenerate case gives an empty
  result.  \<^verbatim>\<open>abc\<close> and \<^verbatim>\<open>xyz\<close> have no common prefix and no common suffix, and
  the diff of \<^verbatim>\<open>abc\<close> against \<^verbatim>\<open>xyz\<close> is \<^verbatim>\<open>abc\<close>; so is the diff of
  \<^verbatim>\<open>abc\<close> against the empty string; and the empty substring is found in
  \<^verbatim>\<open>abc\<close> at \<open>[0, 1, 2, 3]\<close>.
\<close>

theorem C9_counterexample:
  "find_common_prefix ''abc'' ''xyz'' = Inr ''''
   \<and> find_common_suffix ascii_isalnum ''abc'' ''xyz'' = Inr ''''
   \<and> extract_intermediate_diff ascii_isalnum ''abc'' ''xyz'' = Inr ''abc''
   \<and> extract_intermediate_diff ascii_isalnum ''abc'' ''xyz'' \<noteq> Inr ''''
   \<and> extract_intermediate_diff ascii_isalnum ''abc'' '''' = Inr ''abc''
   \<and> extract_intermediate_diff ascii_isalnum ''abc'' '''' \<noteq> Inr ''''
   \<and> find_all_indices ''abc'' '''' = Some [0, 1, 2, 3]
   \<and> find_all_indices ''abc'' '''' \<noteq> Some []"
  by (simp add: degenerate_literals find_all_indices_empty_literal)

text \<open>
  C9, amended.  All four functions return a value on every input and never raise: the
  two matchers and the diff extractor return \<open>Inr\<close> of a string (no \<open>IndexError\<close>),
  and the loop of \<open>find_all_indices\<close> is left from its initial state and from every
  state it can reach (\<open>index \<ge> -1\<close>).  The degenerate cases give these results: an
  empty argument or differing first (last) characters give the empty prefix (suffix);
  an empty current snapshot gives the empty diff; a pair with no common prefix and no
  common suffix, in particular an empty previous snapshot, gives the current snapshot
  unchanged as the diff; a non-empty substring that does not occur, in particular in
  the empty string, gives the empty list; and the empty substring gives the list
  \<open>[0, ..., len(s)]\<close>.
\<close>

theorem C9_total:
  "(\<exists>r. find_common_prefix a b = Inr r)
   \<and> (\<exists>r. find_common_suffix isalnum a b = Inr r)
   \<and> (\<exists>r. extract_intermediate_diff isalnum a b = Inr r)
   \<and> (\<exists>r. find_all_indices a b = Some r)
   \<and> (- 1 \<le> index \<longrightarrow> (\<exists>r. find_all_indices_loop a b index acc = Some r))
   \<and> find_common_prefix [] b = Inr [] \<and> find_common_prefix a [] = Inr []
   \<and> find_common_suffix isalnum [] b = Inr [] \<and> find_common_suffix isalnum a [] = Inr []
   \<and> (a \<noteq> [] \<and> b \<noteq> [] \<and> hd a \<noteq> hd b \<longrightarrow> find_common_prefix a b = Inr [])
   \<and> (a \<noteq> [] \<and> b \<noteq> [] \<and> last a \<noteq> last b \<longrightarrow> find_common_suffix isalnum a b = Inr [])
   \<and> extract_intermediate_diff isalnum [] b = Inr []
   \<and> extract_intermediate_diff isalnum a [] = Inr a
   \<and> (b \<noteq> [] \<longrightarrow> find_all_indices [] b = Some [])
   \<and> (b \<noteq> [] \<and> (\<forall>i. take (length b) (drop i a) \<noteq> b) \<longrightarrow> find_all_indices a b = Some [])
   \<and> (find_common_prefix a b = Inr [] \<and> find_common_suffix isalnum a b = Inr []
        \<longrightarrow> extract_intermediate_diff isalnum a b = Inr a)
   \<and> find_all_indices a [] = Some (map int [0 ..< Suc (length a)])"
proof -
  have l: "- 1 \<le> index \<longrightarrow> (\<exists>r. find_all_indices_loop a b index acc = Some r)"
    by (simp add: find_all_indices_loop_run)
  have p: "a \<noteq> [] \<and> b \<noteq> [] \<and> hd a \<noteq> hd b \<longrightarrow> find_common_prefix a b = Inr []"
    by (auto simp: find_common_prefix_run intro: common_run_hd_stop)
  have s: "a \<noteq> [] \<and> b \<noteq> [] \<and> last a \<noteq> last b \<longrightarrow> find_common_suffix isalnum a b = Inr []"
    by (auto simp: find_common_suffix_run hd_rev intro!: common_run_hd_stop)
  have e: "b \<noteq> [] \<longrightarrow> find_all_indices [] b = Some []"
    by (cases b) (auto simp: find_all_indices_run filter_empty_conv)
  have n: "b \<noteq> [] \<and> (\<forall>i. take (length b) (drop i a) \<noteq> b) \<longrightarrow> find_all_indices a b = Some []"
    by (simp add: find_all_indices_run filter_empty_conv)
  have c: "find_common_prefix a b = Inr [] \<and> find_common_suffix isalnum a b = Inr []
        \<longrightarrow> extract_intermediate_diff isalnum a b = Inr a"
    by (auto intro: extract_intermediate_diff_nothing_common)
  have z: "find_all_indices a [] = Some (map int [0 ..< Suc (length a)])"
    by (simp add: find_all_indices_run)
  show ?thesis
    by (intro conjI l p s e n c z extract_intermediate_diff_returns
          extract_intermediate_diff_empty_old extract_intermediate_diff_empty_cur)
       (simp_all add: find_common_prefix_run find_common_suffix_run find_all_indices_run)
qed

theorem C9_witness:
  "find_common_prefix ''xy'' ''ab'' = Inr ''''
   \<and> find_common_suffix ascii_isalnum ''x,'' ''a.'' = Inr ''''
   \<and> find_all_indices '''' ''ab'' = Some []
   \<and> find_all_indices ''aaa'' ''b'' = Some []
   \<and> (\<exists>r. find_all_indices_loop ''aaa'' ''a'' 0 [0] = Some r)
   \<and> extract_intermediate_diff ascii_isalnum ''xy'' ''ab'' = Inr ''xy''"
proof -
  have "\<forall>i. take (length ''b'') (drop i ''aaa'') \<noteq> ''b''"
  proof
    fix i
    have "set (take (length ''b'') (drop i ''aaa'')) \<subseteq> set ''aaa''"
      by (meson set_drop_subset set_take_subset subset_trans)
    then show "take (length ''b'') (drop i ''aaa'') \<noteq> ''b''" by auto
  qed
  then show ?thesis
    using C9_total[of "''xy''" "''ab''" ascii_isalnum]
      C9_total[of "''x,''" "''a.''" ascii_isalnum]
      C9_total[of "''''" "''ab''" ascii_isalnum]
      C9_total[of "''aaa''" "''b''" ascii_isalnum]
      C9_total[of "''aaa''" "''a''" ascii_isalnum 0 "[0]"]
    by simp
qed

end
